theory Spec2Isabelle
  imports Main "HOL-Library.Word" "HOL-Library.Multiset" "HOL-Library.Product_Lexorder"
begin

unbundle bit_operations_syntax

section \<open>Interference graph storage (visa/GraphColor.h, class Interference)\<close>

text \<open>
  The C++ type \<open>unsigned\<close> is a 32-bit word: live-range ids, the row size and the
  array index \<open>v1 * rowSize + col\<close> all wrap modulo \<open>2^32\<close>. The dense matrix is
  a flat array of 32-bit words (\<open>None\<close> while the pointer is still \<open>nullptr\<close>);
  the sparse matrix is a vector of bit sets, one per row. An access outside the array
  or the vector is undefined in C++ and is the result \<open>None\<close> here.
\<close>

definition BITS_DWORD :: "32 word" where
  "BITS_DWORD = 32"

record Interference =
  maxId :: "32 word"
  rowSize :: "32 word"
  denseMatrixLimit :: "32 word"
  matrix :: "32 word list option"
  sparseMatrix :: "32 word set list"

definition useDenseMatrix :: "Interference \<Rightarrow> bool" where
  "useDenseMatrix I =
     (let size64 = (ucast (rowSize I) :: 64 word) * (ucast (maxId I) :: 64 word);
          umax = (4294967295 :: 64 word)
      in maxId I < denseMatrixLimit I \<and> size64 < umax)"

text \<open>\<open>std::vector::resize\<close> on the vector of rows: new rows are empty bit sets.\<close>

definition resize_rows :: "32 word set list \<Rightarrow> nat \<Rightarrow> 32 word set list" where
  "resize_rows rows n = take n rows @ replicate (n - length rows) {}"

definition init :: "Interference \<Rightarrow> Interference" where
  "init I =
     (if useDenseMatrix I
      then (let N = unat (rowSize I) * unat (maxId I)
            in I\<lparr>matrix := Some (replicate N 0)\<rparr>)
      else I\<lparr>sparseMatrix := resize_rows (sparseMatrix I) (unat (maxId I))\<rparr>)"

definition safeSetInterference ::
    "32 word \<Rightarrow> 32 word \<Rightarrow> Interference \<Rightarrow> Interference option" where
  "safeSetInterference v1 v2 I =
     (if useDenseMatrix I
      then (case matrix I of
              None \<Rightarrow> None
            | Some m \<Rightarrow>
                (let col = v2 div BITS_DWORD;
                     idx = unat (v1 * rowSize I + col)
                 in if idx < length m
                    then Some (I\<lparr>matrix :=
                           Some (m[idx := (m ! idx) OR push_bit (unat (v2 mod BITS_DWORD)) 1])\<rparr>)
                    else None))
      else (let r = unat v1
            in if r < length (sparseMatrix I)
               then Some (I\<lparr>sparseMatrix :=
                      (sparseMatrix I)[r := insert v2 (sparseMatrix I ! r)]\<rparr>)
               else None))"

definition checkAndSetIntf ::
    "32 word \<Rightarrow> 32 word \<Rightarrow> Interference \<Rightarrow> Interference option" where
  "checkAndSetIntf v1 v2 I =
     (if v1 < v2 then safeSetInterference v1 v2 I
      else if v1 > v2 then safeSetInterference v2 v1 I
      else Some I)"

text \<open>
  Reading one cell of the storage: bit \<open>c mod 32\<close> of word \<open>r * rowSize + c div 32\<close>
  in the dense layout, membership of \<open>c\<close> in row \<open>r\<close> in the sparse one. A cell that
  does not exist holds no edge.
\<close>

definition edgeStored :: "32 word \<Rightarrow> 32 word \<Rightarrow> Interference \<Rightarrow> bool" where
  "edgeStored r c I =
     (if useDenseMatrix I
      then (case matrix I of
              None \<Rightarrow> False
            | Some m \<Rightarrow>
                (let idx = unat (r * rowSize I + c div BITS_DWORD)
                 in idx < length m \<and> bit (m ! idx) (unat (c mod BITS_DWORD))))
      else unat r < length (sparseMatrix I) \<and> c \<in> sparseMatrix I ! unat r)"

text \<open>
  Graph construction as the interference pass drives it: a sequence of
  \<open>checkAndSetIntf\<close> calls, one per pair found in the instruction stream, stopping at
  the first undefined access.
\<close>

fun buildEdges :: "(32 word \<times> 32 word) list \<Rightarrow> Interference \<Rightarrow> Interference option" where
  "buildEdges [] I = Some I"
| "buildEdges ((v1, v2) # es) I =
     (case checkAndSetIntf v1 v2 I of
        None \<Rightarrow> None
      | Some I' \<Rightarrow> buildEdges es I')"

text \<open>
  Containment of one graph state in another: same configuration, every dense word of
  the first absorbed by the word of the second, every sparse row a subset.
\<close>

definition intf_le :: "Interference \<Rightarrow> Interference \<Rightarrow> bool" where
  "intf_le I J =
     (maxId J = maxId I \<and> rowSize J = rowSize I \<and> denseMatrixLimit J = denseMatrixLimit I
      \<and> (case matrix I of
             None \<Rightarrow> matrix J = None
           | Some m \<Rightarrow> (case matrix J of
                          None \<Rightarrow> False
                        | Some m' \<Rightarrow> length m' = length m
                            \<and> (\<forall>i < length m. (m ! i) OR (m' ! i) = m' ! i)))
      \<and> length (sparseMatrix J) = length (sparseMatrix I)
      \<and> (\<forall>r < length (sparseMatrix I). sparseMatrix I ! r \<subseteq> sparseMatrix J ! r))"

section \<open>Sub-register alignment kept by the allocator (class GlobalRA)\<close>

text \<open>
  \<open>G4_SubReg_Align\<close> is an enumeration declared outside the given sources; an
  alignment is its underlying number (a count of words) and the enumerator \<open>Any\<close>
  is a parameter. \<open>vars\<close> is the vector of per-declare records, indexed by
  declare id; \<open>allocVar\<close> grows it with default records on demand.
  \<open>vISA_ASSERT\<close> failing is the result \<open>Inl AssertionFailure\<close>; the
  remainder by zero that the assertions would compute is \<open>Inl DivisionByZero\<close>.
\<close>

datatype ra_error = AssertionFailure | DivisionByZero

record RAVarInfo =
  subAlign :: nat
  isEvenAlign :: bool

definition defaultValues :: "nat \<Rightarrow> RAVarInfo" where
  "defaultValues Any = \<lparr>subAlign = Any, isEvenAlign = False\<rparr>"

definition allocVar :: "nat \<Rightarrow> nat \<Rightarrow> RAVarInfo list \<Rightarrow> RAVarInfo list" where
  "allocVar Any dclid vars =
     (if dclid \<ge> length vars
      then vars @ replicate (dclid + 1 - length vars) (defaultValues Any)
      else vars)"

definition getSubRegAlign :: "nat \<Rightarrow> RAVarInfo list \<Rightarrow> nat option" where
  "getSubRegAlign dclid vars =
     (if dclid < length vars then Some (subAlign (vars ! dclid)) else None)"

definition setSubRegAlign ::
    "nat \<Rightarrow> nat \<Rightarrow> nat \<Rightarrow> RAVarInfo list \<Rightarrow> ra_error + RAVarInfo list" where
  "setSubRegAlign Any dclid subAlg vars =
     (let vars1 = allocVar Any dclid vars;
          cur = subAlign (vars1 ! dclid)
      in if \<not> (cur = Any \<or> cur = subAlg \<or> cur mod 2 = 0) then Inl AssertionFailure
         else if cur > subAlg
         then (if subAlg = 0 then Inl DivisionByZero
               else if cur mod subAlg \<noteq> 0 then Inl AssertionFailure
               else Inr vars1)
         else (if cur = 0 then Inl DivisionByZero
               else if subAlg mod cur \<noteq> 0 then Inl AssertionFailure
               else Inr (vars1[dclid := (vars1 ! dclid)\<lparr>subAlign := subAlg\<rparr>])))"

text \<open>The alignment on record for a declare: that of its entry once \<open>allocVar\<close> made it.\<close>

definition storedAlign :: "nat \<Rightarrow> nat \<Rightarrow> RAVarInfo list \<Rightarrow> nat" where
  "storedAlign Any dclid vars = subAlign (allocVar Any dclid vars ! dclid)"

section \<open>Physical register offsets of operands (visa/PhyRegCompute.cpp)\<close>

text \<open>
  A register region has a base and a type. The base is a register variable (with the
  physical register assigned to it, if any, the sub-register offset and its declare) or
  a physical register itself; a physical register is a GRF with its number or a register
  of another file. Declares live in a store indexed by address. The C++ \<open>int\<close>
  sizes only take part in \<open>!=\<close> and in unsigned arithmetic, so they are kept as
  their 32-bit patterns. \<open>TypeSize\<close> (the byte size of a type) and
  \<open>numEltPerGRF<Type_UB>()\<close> (the bytes of one GRF) are declared outside the given
  sources and are parameters. A division by zero is undefined in C++ and is the result
  \<open>None\<close>.
\<close>

datatype PhyReg = Greg (getRegNum: "32 word") | Areg

record G4_RegVar =
  phyReg :: "PhyReg option"
  phyRegOff :: "32 word"
  declare_of :: nat

datatype G4_VarBase = RegVar G4_RegVar | PhyRegBase PhyReg

record G4_Declare =
  elemSize :: "32 word"
  GRFBaseOffset :: "32 word"

record 'ty RegRegion =
  base :: G4_VarBase
  type_of :: 'ty

text \<open>
  Modelled from the spec: \<open>G4_Declare::setGRFBaseOffset\<close> is not in the given
  sources; it stores the declare's GRF base offset.
\<close>

definition setGRFBaseOffset :: "32 word \<Rightarrow> G4_Declare \<Rightarrow> G4_Declare" where
  "setGRFBaseOffset offset dcl = dcl\<lparr>GRFBaseOffset := offset\<rparr>"

definition G4_SrcRegRegion_computePReg ::
    "('ty \<Rightarrow> 32 word) \<Rightarrow> 32 word \<Rightarrow> 'ty RegRegion \<Rightarrow> (nat \<Rightarrow> G4_Declare)
      \<Rightarrow> (nat \<Rightarrow> G4_Declare) option" where
  "G4_SrcRegRegion_computePReg TypeSize numEltPerGRF_UB opnd heap =
     (let thisOpSize = TypeSize (type_of opnd)
      in case base opnd of
           RegVar baseVar \<Rightarrow>
             (case phyReg baseVar of
                Some (Greg regNum) \<Rightarrow>
                  (let dcl = declare_of baseVar;
                       subRegNum = phyRegOff baseVar;
                       declOpSize = elemSize (heap dcl)
                   in if thisOpSize \<noteq> declOpSize \<and> thisOpSize = 0 then None
                      else (let subRegNum' =
                                  (if thisOpSize \<noteq> declOpSize
                                   then (subRegNum * declOpSize) div thisOpSize
                                   else subRegNum);
                                linearizedStart =
                                  (regNum * numEltPerGRF_UB) + (subRegNum' * thisOpSize)
                            in Some (heap(dcl := setGRFBaseOffset linearizedStart (heap dcl)))))
              | _ \<Rightarrow> Some heap)
         | _ \<Rightarrow> Some heap)"

definition G4_DstRegRegion_computePReg ::
    "('ty \<Rightarrow> 32 word) \<Rightarrow> 32 word \<Rightarrow> 'ty RegRegion \<Rightarrow> (nat \<Rightarrow> G4_Declare)
      \<Rightarrow> (nat \<Rightarrow> G4_Declare) option" where
  "G4_DstRegRegion_computePReg TypeSize numEltPerGRF_UB opnd heap =
     (case base opnd of
        RegVar baseVar \<Rightarrow>
          (case phyReg baseVar of
             Some (Greg regNum) \<Rightarrow>
               (let dcl = declare_of baseVar;
                    subRegNum = phyRegOff baseVar;
                    declOpSize = elemSize (heap dcl);
                    thisOpSize = TypeSize (type_of opnd)
                in if thisOpSize \<noteq> declOpSize \<and> thisOpSize = 0 then None
                   else (let subRegNum' =
                               (if thisOpSize \<noteq> declOpSize
                                then (subRegNum * declOpSize) div thisOpSize
                                else subRegNum);
                             linearizedStart =
                               (regNum * numEltPerGRF_UB) + (subRegNum' * thisOpSize)
                         in Some (heap(dcl := setGRFBaseOffset linearizedStart (heap dcl)))))
           | _ \<Rightarrow> Some heap)
      | _ \<Rightarrow> Some heap)"

text \<open>The two conditions of the source, joined: a register variable whose assigned register is a GRF.\<close>

definition isGRFAssigned :: "G4_VarBase \<Rightarrow> bool" where
  "isGRFAssigned b =
     (case b of
        RegVar v \<Rightarrow> (case phyReg v of Some (Greg r) \<Rightarrow> True | _ \<Rightarrow> False)
      | _ \<Rightarrow> False)"

text \<open>The rescaling of the sub-register number, as the claim words it.\<close>

definition rescaledSubReg :: "32 word \<Rightarrow> 32 word \<Rightarrow> 32 word \<Rightarrow> 32 word" where
  "rescaledSubReg subRegNum declElemSize thisOpSize =
     (if thisOpSize = declElemSize then subRegNum
      else (subRegNum * declElemSize) div thisOpSize)"

section \<open>Live ranges and the coloring engine (class LiveRange, class GraphColor)\<close>

text \<open>
  The macro \<open>ROUND(x, y)\<close> of GraphColor.h, on non-negative numbers. For
  \<open>y = 0\<close> the C expression divides by zero; here it is \<open>x\<close>.
\<close>

definition ROUND :: "nat \<Rightarrow> nat \<Rightarrow> nat" where
  "ROUND x y = x + ((y - x mod y) mod y)"

text \<open>
  A live range keeps the number of registers it needs, its forbidden registers, the
  spilled flag and the assigned register (\<open>reg.phyReg\<close>, \<open>nullptr\<close> being
  \<open>None\<close>, and \<open>reg.subRegOff\<close>). \<open>setPhyReg\<close> asserts that its argument
  is a physical register.
\<close>

record AssignedReg =
  assigned_phyReg :: "PhyReg option"
  subRegOff :: "32 word"

record LiveRange =
  numRegNeeded :: nat
  forbidden :: "nat set"
  spilled :: bool
  reg :: AssignedReg

definition getPhyReg :: "LiveRange \<Rightarrow> PhyReg option" where
  "getPhyReg lr = assigned_phyReg (reg lr)"

definition setPhyReg :: "G4_VarBase \<Rightarrow> 32 word \<Rightarrow> LiveRange \<Rightarrow> ra_error + LiveRange" where
  "setPhyReg pr off lr =
     (case pr of
        PhyRegBase p \<Rightarrow> Inr (lr\<lparr>reg := \<lparr>assigned_phyReg = Some p, subRegOff = off\<rparr>\<rparr>)
      | RegVar v \<Rightarrow> Inl AssertionFailure)"

definition resetPhyReg :: "LiveRange \<Rightarrow> LiveRange" where
  "resetPhyReg lr = lr\<lparr>reg := \<lparr>assigned_phyReg = None, subRegOff = 0\<rparr>\<rparr>"

definition setSpilled :: "bool \<Rightarrow> LiveRange \<Rightarrow> LiveRange" where
  "setSpilled v lr = lr\<lparr>spilled := v\<rparr>"

text \<open>
  The coloring engine's state: the register budget, the live ranges (indexed by id) and
  the list of spilled live ranges, by id.
\<close>

record GraphColor =
  totalGRFRegCount :: "32 word"
  lrs :: "LiveRange list"
  spilledLRs :: "nat list"

definition requireSpillCode :: "GraphColor \<Rightarrow> bool" where
  "requireSpillCode gc = (\<not> (spilledLRs gc = []))"

definition getSpilledLiveRanges :: "GraphColor \<Rightarrow> nat list" where
  "getSpilledLiveRanges gc = spilledLRs gc"

text \<open>
  Modelled from the spec: the body of \<open>Interference::interfereBetween\<close> is not in the
  given sources. An edge is an unordered pair stored with the smaller id as row, so the
  query reads the cell (smaller id, larger id).
\<close>

definition interfereBetween :: "32 word \<Rightarrow> 32 word \<Rightarrow> Interference \<Rightarrow> bool" where
  "interfereBetween v1 v2 I = edgeStored (min v1 v2) (max v1 v2) I"

text \<open>
  Two register ranges, each given by first register and length, overlap.
\<close>

definition rangesOverlap :: "nat \<Rightarrow> nat \<Rightarrow> nat \<Rightarrow> nat \<Rightarrow> bool" where
  "rangesOverlap a n b m = (a < b + m \<and> b < a + n)"

text \<open>
  A candidate range \<open>r, ..., r + n - 1\<close> clashes with a live range that holds GRFs
  overlapping it.
\<close>

definition clashes :: "nat \<Rightarrow> nat \<Rightarrow> LiveRange \<Rightarrow> bool" where
  "clashes r n lr =
     (case getPhyReg lr of
        Some (Greg k) \<Rightarrow> rangesOverlap r n (unat k) (numRegNeeded lr)
      | _ \<Rightarrow> False)"

text \<open>
  Modelled from the spec: \<open>GraphColor::assignColors\<close> is not in the given sources.
  A color is legal for a live range when the range fits the register budget, meets the
  alignment (a parameter), avoids every forbidden register, and overlaps no register
  range held by an interfering live range. The bank-conflict hint is a soft preference
  and is left out.
\<close>

definition legalColor ::
    "Interference \<Rightarrow> (nat \<Rightarrow> nat \<Rightarrow> bool) \<Rightarrow> GraphColor \<Rightarrow> nat \<Rightarrow> nat \<Rightarrow> bool" where
  "legalColor I aligned gc v r =
     (let n = numRegNeeded (lrs gc ! v)
      in r + n \<le> unat (totalGRFRegCount gc)
         \<and> aligned v r
         \<and> list_all (\<lambda>k. k \<notin> forbidden (lrs gc ! v)) [r ..< r + n]
         \<and> list_all (\<lambda>u. u = v \<or> \<not> interfereBetween (of_nat v) (of_nat u) I
                          \<or> \<not> clashes r n (lrs gc ! u)) [0 ..< length (lrs gc)])"

text \<open>
  Modelled from the spec: one step of the assignment. The lowest legal color is taken;
  a live range with no legal color is marked spilled and appended to the spilled list,
  and is not looked at again in this pass.
\<close>

definition colorOne ::
    "Interference \<Rightarrow> (nat \<Rightarrow> nat \<Rightarrow> bool) \<Rightarrow> nat \<Rightarrow> GraphColor \<Rightarrow> GraphColor" where
  "colorOne I aligned v gc =
     (case find (legalColor I aligned gc v) [0 ..< unat (totalGRFRegCount gc)] of
        Some r \<Rightarrow>
          (case setPhyReg (PhyRegBase (Greg (of_nat r))) 0 (lrs gc ! v) of
             Inr lr' \<Rightarrow> gc\<lparr>lrs := (lrs gc)[v := lr']\<rparr>
           | Inl e \<Rightarrow> gc)
      | None \<Rightarrow>
          gc\<lparr>lrs := (lrs gc)[v := setSpilled True (lrs gc ! v)],
             spilledLRs := spilledLRs gc @ [v]\<rparr>)"

text \<open>
  Modelled from the spec: the assignment pass walks the color order once.
\<close>

fun assignColors ::
    "Interference \<Rightarrow> (nat \<Rightarrow> nat \<Rightarrow> bool) \<Rightarrow> nat list \<Rightarrow> GraphColor \<Rightarrow> GraphColor" where
  "assignColors I aligned [] gc = gc"
| "assignColors I aligned (v # vs) gc = assignColors I aligned vs (colorOne I aligned v gc)"

text \<open>
  Modelled from the spec: \<open>SpillManager::createSpillLocations\<close> is only declared in
  the given sources. Each spilled live range gets a slot of its own, its byte size
  rounded up to the transfer granularity, laid out one after the other.
\<close>

fun createSpillLocations ::
    "(nat \<Rightarrow> nat) \<Rightarrow> nat \<Rightarrow> nat \<Rightarrow> nat list \<Rightarrow> (nat \<times> nat \<times> nat) list" where
  "createSpillLocations byteSize g off [] = []"
| "createSpillLocations byteSize g off (v # vs) =
     (v, off, ROUND (byteSize v) g)
       # createSpillLocations byteSize g (off + ROUND (byteSize v) g) vs"

text \<open>
  The physical storage of a live range after a pass: its GRF range, or else its spill
  slot. Registers and memory never overlap one another.
\<close>

datatype storage = InRegisters nat nat | InMemory nat nat

definition storageOf :: "GraphColor \<Rightarrow> (nat \<times> nat \<times> nat) list \<Rightarrow> nat \<Rightarrow> storage option" where
  "storageOf gc slots v =
     (case getPhyReg (lrs gc ! v) of
        Some (Greg k) \<Rightarrow> Some (InRegisters (unat k) (numRegNeeded (lrs gc ! v)))
      | _ \<Rightarrow> (case map_of slots v of
                 Some (off, sz) \<Rightarrow> Some (InMemory off sz)
               | None \<Rightarrow> None))"

fun storageOverlap :: "storage option \<Rightarrow> storage option \<Rightarrow> bool" where
  "storageOverlap (Some (InRegisters a n)) (Some (InRegisters b m)) = rangesOverlap a n b m"
| "storageOverlap (Some (InMemory a n)) (Some (InMemory b m)) = rangesOverlap a n b m"
| "storageOverlap _ _ = False"

text \<open>
  A live range is colored when it holds a GRF; two live ranges overlap in registers;
  no interfering pair overlaps in registers.
\<close>

definition colored :: "GraphColor \<Rightarrow> nat \<Rightarrow> bool" where
  "colored gc v = (case getPhyReg (lrs gc ! v) of Some (Greg k) \<Rightarrow> True | _ \<Rightarrow> False)"

definition regOverlap :: "LiveRange \<Rightarrow> LiveRange \<Rightarrow> bool" where
  "regOverlap lr1 lr2 =
     (case getPhyReg lr1 of
        Some (Greg k) \<Rightarrow> clashes (unat k) (numRegNeeded lr1) lr2
      | _ \<Rightarrow> False)"

definition noClash :: "Interference \<Rightarrow> GraphColor \<Rightarrow> bool" where
  "noClash I gc =
     (\<forall>a < length (lrs gc). \<forall>b < length (lrs gc).
        a \<noteq> b \<and> interfereBetween (of_nat a) (of_nat b) I \<longrightarrow>
        \<not> regOverlap (lrs gc ! a) (lrs gc ! b))"

section \<open>Augmentation: masks, live intervals and the sweep (class Augmentation)\<close>

text \<open>
  The enumeration \<open>AugmentationMasks\<close> of GraphColor.h. A live interval carries what
  the sweep reads of a declare: the id of its live range, the lexical ids of its first and
  last instruction, and its mask.
\<close>

datatype AugmentationMasks =
  Undetermined | Default16Bit | Default32Bit | Default64Bit | DefaultPredicateMask | NonDefault













section \<open>Sample states\<close>

definition I_big :: Interference where
  "I_big = \<lparr>maxId = 65536, rowSize = 65536, denseMatrixLimit = 4294967295,
            matrix = None, sparseMatrix = []\<rparr>"

definition I_dense :: Interference where
  "I_dense = \<lparr>maxId = 3, rowSize = 1, denseMatrixLimit = 10,
              matrix = Some [0, 0, 0], sparseMatrix = []\<rparr>"

definition I_sparse :: Interference where
  "I_sparse = \<lparr>maxId = 3, rowSize = 1, denseMatrixLimit = 2,
               matrix = None, sparseMatrix = [{}, {}, {}]\<rparr>"

definition align_Any :: nat where
  "align_Any = 1"

definition vars_empty :: "RAVarInfo list" where
  "vars_empty = []"

definition vars_four :: "RAVarInfo list" where
  "vars_four = [\<lparr>subAlign = 4, isEvenAlign = False\<rparr>]"

definition heap_w :: "nat \<Rightarrow> G4_Declare" where
  "heap_w = (\<lambda>_. \<lparr>elemSize = 4, GRFBaseOffset = 0\<rparr>)"

definition opnd_grf :: "unit RegRegion" where
  "opnd_grf = \<lparr>base = RegVar \<lparr>phyReg = Some (Greg 3), phyRegOff = 2, declare_of = 0\<rparr>,
               type_of = ()\<rparr>"

definition opnd_arf :: "unit RegRegion" where
  "opnd_arf = \<lparr>base = RegVar \<lparr>phyReg = Some Areg, phyRegOff = 0, declare_of = 0\<rparr>,
               type_of = ()\<rparr>"

definition lr0 :: LiveRange where
  "lr0 = \<lparr>numRegNeeded = 1, forbidden = {}, spilled = False,
          reg = \<lparr>assigned_phyReg = None, subRegOff = 0\<rparr>\<rparr>"

definition gc3 :: GraphColor where
  "gc3 = \<lparr>totalGRFRegCount = 2, lrs = [lr0, lr0, lr0], spilledLRs = []\<rparr>"

definition I3 :: Interference where
  "I3 = \<lparr>maxId = 3, rowSize = 1, denseMatrixLimit = 10,
          matrix = Some [6, 4, 0], sparseMatrix = []\<rparr>"

definition gc3_colored :: GraphColor where
  "gc3_colored = \<lparr>totalGRFRegCount = 2,
     lrs = [lr0\<lparr>reg := \<lparr>assigned_phyReg = Some (Greg 0), subRegOff = 0\<rparr>\<rparr>,
            lr0\<lparr>reg := \<lparr>assigned_phyReg = Some (Greg 1), subRegOff = 0\<rparr>\<rparr>,
            lr0\<lparr>spilled := True\<rparr>],
     spilledLRs = [2]\<rparr>"

definition order3 :: "nat list" where
  "order3 = [0, 1, 2]"

definition unaligned :: "nat \<Rightarrow> nat \<Rightarrow> bool" where
  "unaligned v r = True"









section \<open>Dense or sparse: the capacity check\<close>

lemma unat_ucast_32_64: "unat (ucast (a :: 32 word) :: 64 word) = unat a"
proof -
  have "unat a < 2 ^ 32"
    using unsigned_less [of a, where 'a = nat] by simp
  then have "unat a < 2 ^ 64" by simp
  then show ?thesis
    by (simp add: unsigned_ucast_eq take_bit_nat_eq_self)
qed

lemma unat_size64:
  "unat ((ucast (a :: 32 word) :: 64 word) * ucast (b :: 32 word)) = unat a * unat b"
proof -
  have "unat a < 2 ^ 32" "unat b < 2 ^ 32"
    using unsigned_less [of a, where 'a = nat] unsigned_less [of b, where 'a = nat]
    by simp_all
  then have "unat a * unat b < 2 ^ 32 * 2 ^ 32"
    by (meson mult_strict_mono' zero_le)
  then have "unat (ucast a :: 64 word) * unat (ucast b :: 64 word) < 2 ^ LENGTH(64)"
    by (simp add: unat_ucast_32_64)
  then show ?thesis
    by (simp add: unat_mult_lem [THEN iffD1] unat_ucast_32_64)
qed

lemma useDenseMatrix_nat:
  "useDenseMatrix I =
     (unat (maxId I) < unat (denseMatrixLimit I) \<and>
      unat (rowSize I) * unat (maxId I) < 4294967295)"
  by (simp add: useDenseMatrix_def Let_def word_less_nat_alt unat_size64)

lemma useDenseMatrix_storage [simp]:
  "useDenseMatrix (I\<lparr>matrix := m\<rparr>) = useDenseMatrix I"
  "useDenseMatrix (I\<lparr>sparseMatrix := s\<rparr>) = useDenseMatrix I"
  by (simp_all add: useDenseMatrix_def)

text \<open>
  Claim C4. \<open>useDenseMatrix\<close> is decided by \<open>maxId\<close>, \<open>rowSize\<close> and
  \<open>denseMatrixLimit\<close> alone: it holds exactly when \<open>maxId < denseMatrixLimit\<close> and
  the product \<open>rowSize * maxId\<close>, taken without wrap-around in 64 bits, is strictly below
  the largest \<open>unsigned int\<close>, 4294967295 (the offset counts 32-bit words). When the
  limit is reached or the product is at least 4294967295, \<open>useDenseMatrix\<close> is false and
  \<open>init\<close> only resizes the vector of sparse rows to \<open>maxId\<close> rows, leaving the dense
  pointer as it was; \<open>init\<close> has no failing branch. The stored edges do not influence the
  choice.
\<close>

theorem useDenseMatrix_capacity_fallback:
  "useDenseMatrix I =
     (unat (maxId I) < unat (denseMatrixLimit I) \<and>
      unat (rowSize I) * unat (maxId I) < 4294967295)
   \<and> (unat (denseMatrixLimit I) \<le> unat (maxId I) \<or>
        4294967295 \<le> unat (rowSize I) * unat (maxId I) \<longrightarrow>
        \<not> useDenseMatrix I
        \<and> init I = I\<lparr>sparseMatrix := resize_rows (sparseMatrix I) (unat (maxId I))\<rparr>
        \<and> matrix (init I) = matrix I
        \<and> length (sparseMatrix (init I)) = unat (maxId I))
   \<and> useDenseMatrix (I\<lparr>matrix := m, sparseMatrix := s\<rparr>) = useDenseMatrix I"
  by (auto simp add: useDenseMatrix_nat init_def resize_rows_def)

theorem useDenseMatrix_capacity_fallback_witness:
  "4294967295 \<le> unat (rowSize I_big) * unat (maxId I_big)
   \<and> \<not> useDenseMatrix I_big
   \<and> matrix (init I_big) = None
   \<and> length (sparseMatrix (init I_big)) = 65536"
  using useDenseMatrix_capacity_fallback [where I = I_big and m = None and s = "[]"]
  by (simp add: I_big_def resize_rows_def)

section \<open>Upper-triangular storage\<close>

lemma shift_amount_lt: "unat (v mod BITS_DWORD) < 32"
proof -
  have "v mod BITS_DWORD < BITS_DWORD"
    by (simp add: BITS_DWORD_def word_mod_less_divisor)
  then show ?thesis
    by (simp add: word_less_nat_alt BITS_DWORD_def)
qed

lemma bit_shifted_one: "bit (push_bit (unat (v mod BITS_DWORD)) (1 :: 32 word)) (unat (v mod BITS_DWORD))"
  using shift_amount_lt [of v] by (simp add: bit_exp_iff)

lemma safeSet_stored:
  "safeSetInterference v1 v2 I = Some I' \<Longrightarrow> edgeStored v1 v2 I'"
  by (auto simp add: safeSetInterference_def edgeStored_def Let_def bit_or_iff bit_shifted_one simp del: push_bit_of_1 split: option.splits if_splits)

lemma checkAndSetIntf_I_dense:
  "checkAndSetIntf 2 1 I_dense = Some (I_dense\<lparr>matrix := Some [0, 4, 0]\<rparr>)"
  "checkAndSetIntf 1 2 I_dense = Some (I_dense\<lparr>matrix := Some [0, 4, 0]\<rparr>)"
  "checkAndSetIntf 2 2 I_dense = Some I_dense"
  "edgeStored 1 2 (I_dense\<lparr>matrix := Some [0, 4, 0]\<rparr>)"
  by (simp_all add: checkAndSetIntf_def safeSetInterference_def edgeStored_def
        useDenseMatrix_nat I_dense_def BITS_DWORD_def Let_def)

lemma checkAndSetIntf_I_sparse:
  "checkAndSetIntf 2 1 I_sparse = Some (I_sparse\<lparr>sparseMatrix := [{}, {2}, {}]\<rparr>)"
  by (simp add: checkAndSetIntf_def safeSetInterference_def
        useDenseMatrix_nat I_sparse_def Let_def)

text \<open>
  Claim C5. Storage is upper-triangular. For distinct ids \<open>checkAndSetIntf v1 v2\<close> is
  \<open>safeSetInterference\<close> on the smaller id as row and the larger as column, and after it
  the cell (smaller, larger) holds the edge; \<open>checkAndSetIntf v1 v2\<close> and
  \<open>checkAndSetIntf v2 v1\<close> give the same state; \<open>checkAndSetIntf v v\<close> returns the
  graph unchanged, so it stores no self-edge.
\<close>

theorem checkAndSetIntf_upper_triangular:
  "(v1 \<noteq> v2 \<longrightarrow>
      checkAndSetIntf v1 v2 I = safeSetInterference (min v1 v2) (max v1 v2) I)
   \<and> (\<forall>I'. v1 \<noteq> v2 \<longrightarrow> checkAndSetIntf v1 v2 I = Some I' \<longrightarrow>
          edgeStored (min v1 v2) (max v1 v2) I')
   \<and> checkAndSetIntf v1 v2 I = checkAndSetIntf v2 v1 I
   \<and> checkAndSetIntf v v I = Some I"
proof -
  have sel: "v1 \<noteq> v2 \<longrightarrow>
      checkAndSetIntf v1 v2 I = safeSetInterference (min v1 v2) (max v1 v2) I"
    by (auto simp add: checkAndSetIntf_def min_def max_def)
  have stored: "\<forall>I'. v1 \<noteq> v2 \<longrightarrow> checkAndSetIntf v1 v2 I = Some I' \<longrightarrow>
          edgeStored (min v1 v2) (max v1 v2) I'"
    using sel safeSet_stored by auto
  have sym: "checkAndSetIntf v1 v2 I = checkAndSetIntf v2 v1 I"
    by (auto simp add: checkAndSetIntf_def)
  have self: "checkAndSetIntf v v I = Some I"
    by (simp add: checkAndSetIntf_def)
  from sel stored sym self show ?thesis by blast
qed

theorem checkAndSetIntf_upper_triangular_witness:
  "(2 :: 32 word) \<noteq> 1
   \<and> checkAndSetIntf 2 1 I_dense = Some (I_dense\<lparr>matrix := Some [0, 4, 0]\<rparr>)
   \<and> edgeStored 1 2 (I_dense\<lparr>matrix := Some [0, 4, 0]\<rparr>)
   \<and> checkAndSetIntf 1 2 I_dense = Some (I_dense\<lparr>matrix := Some [0, 4, 0]\<rparr>)
   \<and> checkAndSetIntf 2 2 I_dense = Some I_dense"
  using checkAndSetIntf_upper_triangular [of 2 1 I_dense 2]
  by (simp add: checkAndSetIntf_I_dense)

section \<open>Idempotent insertion\<close>

lemma intf_le_refl: "intf_le I I"
  by (simp add: intf_le_def split: option.splits)

lemma or_absorb_trans:
  fixes x y z :: "32 word"
  assumes "x OR y = y" and "y OR z = z"
  shows "x OR z = z"
proof -
  have "x OR z = x OR (y OR z)" using assms(2) by simp
  also have "\<dots> = (x OR y) OR z" by (simp only: or.assoc)
  also have "\<dots> = z" using assms by simp
  finally show ?thesis .
qed

lemma or_absorb_bit:
  fixes x y b :: "32 word"
  assumes "(x OR b) OR y = y"
  shows "y OR b = y"
proof -
  have "y OR b = ((x OR b) OR y) OR b" using assms by simp
  also have "\<dots> = (x OR b) OR y" by (simp only: or.assoc or.commute or.left_commute or.left_idem or.idem)
  also have "\<dots> = y" by (rule assms)
  finally show ?thesis .
qed

lemma intf_le_trans:
  assumes a: "intf_le I J" and b: "intf_le J K"
  shows "intf_le I K"
proof -
  have cfg: "maxId K = maxId I" "rowSize K = rowSize I" "denseMatrixLimit K = denseMatrixLimit I"
    using a b by (simp_all add: intf_le_def)
  have len: "length (sparseMatrix K) = length (sparseMatrix I)"
    using a b by (simp add: intf_le_def)
  have rows: "\<forall>r < length (sparseMatrix I). sparseMatrix I ! r \<subseteq> sparseMatrix K ! r"
  proof (intro allI impI)
    fix r assume r: "r < length (sparseMatrix I)"
    then have "sparseMatrix I ! r \<subseteq> sparseMatrix J ! r" using a by (simp add: intf_le_def)
    moreover have "sparseMatrix J ! r \<subseteq> sparseMatrix K ! r"
      using b a r by (simp add: intf_le_def)
    ultimately show "sparseMatrix I ! r \<subseteq> sparseMatrix K ! r" by (rule subset_trans)
  qed
  have mat: "(case matrix I of
             None \<Rightarrow> matrix K = None
           | Some m \<Rightarrow> (case matrix K of
                          None \<Rightarrow> False
                        | Some m' \<Rightarrow> length m' = length m
                            \<and> (\<forall>i < length m. (m ! i) OR (m' ! i) = m' ! i)))"
  proof (cases "matrix I")
    case None
    then show ?thesis using a b by (simp add: intf_le_def)
  next
    case (Some m)
    with a obtain mJ where mJ: "matrix J = Some mJ" "length mJ = length m"
      "\<forall>i < length m. (m ! i) OR (mJ ! i) = mJ ! i"
      by (auto simp add: intf_le_def split: option.splits)
    with b obtain mK where mK: "matrix K = Some mK" "length mK = length m"
      "\<forall>i < length m. (mJ ! i) OR (mK ! i) = mK ! i"
      by (auto simp add: intf_le_def split: option.splits)
    have "\<forall>i < length m. (m ! i) OR (mK ! i) = mK ! i"
    proof (intro allI impI)
      fix i assume i: "i < length m"
      from i mJ(3) have 1: "(m ! i) OR (mJ ! i) = mJ ! i" by simp
      from i mK(3) have 2: "(mJ ! i) OR (mK ! i) = mK ! i" by simp
      from 1 2 show "(m ! i) OR (mK ! i) = mK ! i" by (rule or_absorb_trans)
    qed
    then show ?thesis using Some mK by simp
  qed
  from cfg len rows mat show ?thesis by (simp add: intf_le_def)
qed

lemma useDenseMatrix_intf_le: "intf_le I J \<Longrightarrow> useDenseMatrix J = useDenseMatrix I"
  by (simp add: intf_le_def useDenseMatrix_def)

lemma safeSet_intf_le:
  assumes "safeSetInterference v1 v2 I = Some I'"
  shows "intf_le I I'"
proof (cases "useDenseMatrix I")
  case True
  let ?i = "unat (v1 * rowSize I + v2 div BITS_DWORD)"
  let ?b = "push_bit (unat (v2 mod BITS_DWORD)) (1 :: 32 word)"
  from True assms obtain m where m: "matrix I = Some m" and idx: "?i < length m"
    and I': "I' = I\<lparr>matrix := Some (m[?i := (m ! ?i) OR ?b])\<rparr>"
    by (auto simp add: safeSetInterference_def Let_def split: option.splits if_splits)
  have "\<forall>i < length m. (m ! i) OR (m[?i := (m ! ?i) OR ?b] ! i) = m[?i := (m ! ?i) OR ?b] ! i"
  proof (intro allI impI)
    fix i assume "i < length m"
    then show "(m ! i) OR (m[?i := (m ! ?i) OR ?b] ! i) = m[?i := (m ! ?i) OR ?b] ! i"
      by (cases "i = ?i") (simp_all add: or.assoc [symmetric] del: push_bit_of_1)
  qed
  then show ?thesis using m I' by (simp add: intf_le_def)
next
  case False
  with assms have r: "unat v1 < length (sparseMatrix I)"
    and I': "I' = I\<lparr>sparseMatrix := (sparseMatrix I)[unat v1 := insert v2 (sparseMatrix I ! unat v1)]\<rparr>"
    by (auto simp add: safeSetInterference_def Let_def split: if_splits)
  have "\<forall>k < length (sparseMatrix I). sparseMatrix I ! k
        \<subseteq> (sparseMatrix I)[unat v1 := insert v2 (sparseMatrix I ! unat v1)] ! k"
  proof (intro allI impI)
    fix k assume "k < length (sparseMatrix I)"
    then show "sparseMatrix I ! k
        \<subseteq> (sparseMatrix I)[unat v1 := insert v2 (sparseMatrix I ! unat v1)] ! k"
      by (cases "k = unat v1") auto
  qed
  then show ?thesis using I' by (simp add: intf_le_def split: option.splits)
qed

lemma safeSet_absorbed:
  assumes "safeSetInterference v1 v2 I = Some I'" and "intf_le I' J"
  shows "safeSetInterference v1 v2 J = Some J"
proof (cases "useDenseMatrix I")
  case True
  then have dJ: "useDenseMatrix J"
    using assms safeSet_intf_le useDenseMatrix_intf_le by blast
  from True assms(1) obtain m where m: "matrix I = Some m"
    and idx: "unat (v1 * rowSize I + v2 div BITS_DWORD) < length m"
    and I': "I' = I\<lparr>matrix := Some (m[unat (v1 * rowSize I + v2 div BITS_DWORD) :=
         (m ! unat (v1 * rowSize I + v2 div BITS_DWORD)) OR push_bit (unat (v2 mod BITS_DWORD)) 1])\<rparr>"
    by (auto simp add: safeSetInterference_def Let_def split: option.splits if_splits)
  let ?i = "unat (v1 * rowSize I + v2 div BITS_DWORD)"
  let ?b = "push_bit (unat (v2 mod BITS_DWORD)) (1 :: 32 word)"
  from assms(2) I' m idx obtain mJ where mJ: "matrix J = Some mJ" "length mJ = length m"
    and sub: "((m ! ?i) OR ?b) OR (mJ ! ?i) = mJ ! ?i"
    and rs: "rowSize J = rowSize I"
    by (auto simp add: intf_le_def split: option.splits)
  have "(mJ ! ?i) OR ?b = mJ ! ?i"
    using sub by (rule or_absorb_bit)
  then have "mJ[?i := (mJ ! ?i) OR ?b] = mJ"
    by (simp add: list_update_same_conv idx mJ)
  then show ?thesis
    using dJ mJ idx rs by (simp add: safeSetInterference_def Let_def)
next
  case False
  then have dJ: "\<not> useDenseMatrix J"
    using assms safeSet_intf_le useDenseMatrix_intf_le by blast
  from False assms(1) have r: "unat v1 < length (sparseMatrix I)"
    and I': "I' = I\<lparr>sparseMatrix := (sparseMatrix I)[unat v1 := insert v2 (sparseMatrix I ! unat v1)]\<rparr>"
    by (auto simp add: safeSetInterference_def Let_def split: if_splits)
  from assms(2) I' r have len: "length (sparseMatrix J) = length (sparseMatrix I)"
    and mem: "v2 \<in> sparseMatrix J ! unat v1"
    by (auto simp add: intf_le_def)
  have "(sparseMatrix J)[unat v1 := insert v2 (sparseMatrix J ! unat v1)] = sparseMatrix J"
    using mem len r by (simp add: list_update_same_conv insert_absorb)
  then show ?thesis
    using dJ len r by (simp add: safeSetInterference_def Let_def)
qed

lemma checkAndSet_intf_le: "checkAndSetIntf v1 v2 I = Some I' \<Longrightarrow> intf_le I I'"
  by (auto simp add: checkAndSetIntf_def intf_le_refl safeSet_intf_le split: if_splits)

lemma checkAndSet_absorbed:
  "checkAndSetIntf v1 v2 I = Some I' \<Longrightarrow> intf_le I' J \<Longrightarrow> checkAndSetIntf v1 v2 J = Some J"
  by (auto simp add: checkAndSetIntf_def safeSet_absorbed split: if_splits)

lemma buildEdges_intf_le: "buildEdges es I = Some I' \<Longrightarrow> intf_le I I'"
proof (induction es arbitrary: I)
  case Nil
  then show ?case by (simp add: intf_le_refl)
next
  case (Cons e es)
  obtain v1 v2 where e: "e = (v1, v2)" by (cases e)
  with Cons.prems obtain I1 where s: "checkAndSetIntf v1 v2 I = Some I1"
    and b: "buildEdges es I1 = Some I'"
    by (auto split: option.splits)
  from s have "intf_le I I1" by (rule checkAndSet_intf_le)
  moreover from b have "intf_le I1 I'" by (rule Cons.IH)
  ultimately show ?case by (rule intf_le_trans)
qed

lemma buildEdges_absorbed:
  "buildEdges es I = Some I' \<Longrightarrow> intf_le I' J \<Longrightarrow> buildEdges es J = Some J"
proof (induction es arbitrary: I)
  case Nil
  then show ?case by simp
next
  case (Cons e es)
  obtain v1 v2 where e: "e = (v1, v2)" by (cases e)
  with Cons.prems obtain I1 where s: "checkAndSetIntf v1 v2 I = Some I1"
    and b: "buildEdges es I1 = Some I'"
    by (auto split: option.splits)
  from b have "intf_le I1 I'" by (rule buildEdges_intf_le)
  then have "intf_le I1 J" using Cons.prems(2) by (rule intf_le_trans)
  with s have "checkAndSetIntf v1 v2 J = Some J" by (rule checkAndSet_absorbed)
  moreover from b Cons.prems(2) have "buildEdges es J = Some J" by (rule Cons.IH)
  ultimately show ?case using e by simp
qed

text \<open>
  Claim C6. Inserting an edge is idempotent: running \<open>safeSetInterference\<close> or
  \<open>checkAndSetIntf\<close> a second time on the state the first call returned gives that same
  state, in the dense and in the sparse representation alike (and an undefined access stays
  undefined). The same holds for a whole construction pass: replaying the sequence of
  insertions of an unchanged instruction stream on the graph it built changes no bit.
\<close>

theorem edge_insertion_idempotent:
  "Option.bind (safeSetInterference v1 v2 I) (safeSetInterference v1 v2)
     = safeSetInterference v1 v2 I
   \<and> Option.bind (checkAndSetIntf v1 v2 I) (checkAndSetIntf v1 v2)
     = checkAndSetIntf v1 v2 I
   \<and> Option.bind (buildEdges es I) (buildEdges es) = buildEdges es I"
proof (intro conjI)
  show "Option.bind (safeSetInterference v1 v2 I) (safeSetInterference v1 v2)
     = safeSetInterference v1 v2 I"
    by (cases "safeSetInterference v1 v2 I") (simp_all add: safeSet_absorbed intf_le_refl)
  show "Option.bind (checkAndSetIntf v1 v2 I) (checkAndSetIntf v1 v2)
     = checkAndSetIntf v1 v2 I"
    by (cases "checkAndSetIntf v1 v2 I") (simp_all add: checkAndSet_absorbed intf_le_refl)
  show "Option.bind (buildEdges es I) (buildEdges es) = buildEdges es I"
    by (cases "buildEdges es I") (simp_all add: buildEdges_absorbed intf_le_refl)
qed

section \<open>Alignment refinement\<close>

lemma allocVar_len: "dclid < length (allocVar Any dclid vars)"
  by (simp add: allocVar_def)

lemma allocVar_idem: "dclid < length vars \<Longrightarrow> allocVar Any dclid vars = vars"
  by (simp add: allocVar_def)

lemma set_cases:
  assumes "0 < storedAlign Any d vars" "0 < subAlg"
    "storedAlign Any d vars = Any \<or> storedAlign Any d vars = subAlg
       \<or> even (storedAlign Any d vars)"
  shows "setSubRegAlign Any d subAlg vars =
     (if subAlg dvd storedAlign Any d vars then Inr (allocVar Any d vars)
      else if storedAlign Any d vars dvd subAlg
        then Inr ((allocVar Any d vars)[d := (allocVar Any d vars ! d)\<lparr>subAlign := subAlg\<rparr>])
      else Inl AssertionFailure)"
proof -
  let ?c = "storedAlign Any d vars"
  have le: "subAlg dvd ?c \<Longrightarrow> subAlg \<le> ?c" using assms(1) by (simp add: dvd_imp_le)
  have le2: "?c dvd subAlg \<Longrightarrow> ?c \<le> subAlg" using assms(2) by (simp add: dvd_imp_le)
  show ?thesis
  proof (cases "?c > subAlg")
    case True
    then have "\<not> ?c dvd subAlg" using le2 by auto
    with True assms show ?thesis
      by (auto simp add: setSubRegAlign_def storedAlign_def Let_def dvd_eq_mod_eq_0)
  next
    case False
    show ?thesis
    proof (cases "?c = subAlg")
      case True
      have "(allocVar Any d vars)[d := (allocVar Any d vars ! d)\<lparr>subAlign := subAlg\<rparr>] = allocVar Any d vars"
        using True by (simp add: storedAlign_def list_update_same_conv allocVar_len)
      with True assms show ?thesis
        by (simp add: setSubRegAlign_def Let_def storedAlign_def)
    next
      case neq: False
      with False have lt: "?c < subAlg" by simp
      then have "\<not> subAlg dvd ?c" using le by auto
      with lt assms show ?thesis
        by (auto simp add: setSubRegAlign_def storedAlign_def Let_def dvd_eq_mod_eq_0)
    qed
  qed
qed

lemma storedAlign_alloc: "storedAlign Any d (allocVar Any d vars) = storedAlign Any d vars"
  by (simp add: storedAlign_def allocVar_idem allocVar_len)

lemma storedAlign_update:
  "storedAlign Any d ((allocVar Any d vars)[d := (allocVar Any d vars ! d)\<lparr>subAlign := a\<rparr>]) = a"
  by (simp add: storedAlign_def allocVar_idem allocVar_len)

lemma getSubRegAlign_stored:
  "d < length vars \<Longrightarrow> getSubRegAlign d vars = Some (storedAlign Any d vars)"
  by (simp add: getSubRegAlign_def storedAlign_def allocVar_idem)

lemma storedAlign_examples:
  "storedAlign align_Any 0 vars_empty = align_Any"
  "storedAlign align_Any 0 vars_four = 4"
  by (simp_all add: storedAlign_def allocVar_def defaultValues_def vars_empty_def
        vars_four_def align_Any_def)

lemma setSubRegAlign_examples:
  "setSubRegAlign align_Any 0 4 vars_empty = Inr vars_four"
  "setSubRegAlign align_Any 0 4 vars_four = Inr vars_four"
  "setSubRegAlign align_Any 0 2 vars_four = Inr vars_four"
  "setSubRegAlign align_Any 0 6 vars_four = Inl AssertionFailure"
  "getSubRegAlign 0 vars_four = Some 4"
  by (simp_all add: setSubRegAlign_def getSubRegAlign_def allocVar_def defaultValues_def
        vars_empty_def vars_four_def align_Any_def Let_def)

text \<open>
  Claim C9. \<open>setSubRegAlign\<close> refines monotonically. For positive alignments: whenever
  it returns, the alignment then stored is a multiple of both the former one and of the
  requested one, and the same call repeated changes nothing; when the requested alignment
  divides the stored one (which is \<open>Any\<close> or even, as the entry assertion expects),
  the stored one is kept; when the stored one divides the requested one, the requested one
  is stored; when neither divides the other the assertion fails and nothing is stored.
\<close>

theorem setSubRegAlign_monotone:
  assumes pos: "0 < storedAlign Any d vars" "0 < subAlg"
  shows
    "(\<forall>vars'. setSubRegAlign Any d subAlg vars = Inr vars' \<longrightarrow>
        (\<exists>a. getSubRegAlign d vars' = Some a \<and> storedAlign Any d vars dvd a \<and> subAlg dvd a)
        \<and> setSubRegAlign Any d subAlg vars' = Inr vars')
     \<and> ((storedAlign Any d vars = Any \<or> even (storedAlign Any d vars)) \<and>
          subAlg dvd storedAlign Any d vars \<longrightarrow>
          (\<exists>vars'. setSubRegAlign Any d subAlg vars = Inr vars' \<and>
                  getSubRegAlign d vars' = Some (storedAlign Any d vars)))
     \<and> ((storedAlign Any d vars = Any \<or> even (storedAlign Any d vars)) \<and>
          storedAlign Any d vars dvd subAlg \<longrightarrow>
          (\<exists>vars'. setSubRegAlign Any d subAlg vars = Inr vars' \<and>
                  getSubRegAlign d vars' = Some subAlg))
     \<and> (\<not> subAlg dvd storedAlign Any d vars \<and> \<not> storedAlign Any d vars dvd subAlg \<longrightarrow>
          setSubRegAlign Any d subAlg vars = Inl AssertionFailure)"
proof -
  let ?c = "storedAlign Any d vars"
  let ?A = "allocVar Any d vars"
  let ?U = "?A[d := (?A ! d)\<lparr>subAlign := subAlg\<rparr>]"
  have lenA: "d < length ?A" by (rule allocVar_len)
  have lenU: "d < length ?U" using lenA by simp
  have entry: "setSubRegAlign Any d subAlg vars = Inr vars' \<Longrightarrow>
      ?c = Any \<or> ?c = subAlg \<or> even ?c" for vars'
    by (auto simp add: setSubRegAlign_def storedAlign_def Let_def split: if_splits)
  have mono: "(\<exists>a. getSubRegAlign d vars' = Some a \<and> ?c dvd a \<and> subAlg dvd a)
        \<and> setSubRegAlign Any d subAlg vars' = Inr vars'"
    if ok: "setSubRegAlign Any d subAlg vars = Inr vars'" for vars'
  proof -
    from entry [OF ok] have wf: "?c = Any \<or> ?c = subAlg \<or> even ?c" .
    note sc = set_cases [OF pos wf]
    show ?thesis
    proof (cases "subAlg dvd ?c")
      case True
      with ok sc have v: "vars' = ?A" by simp
      have c': "storedAlign Any d vars' = ?c" using v by (simp add: storedAlign_alloc)
      have g: "getSubRegAlign d vars' = Some ?c"
        using getSubRegAlign_stored [of d vars' Any] lenA v c' by simp
      have "setSubRegAlign Any d subAlg vars' = Inr (allocVar Any d vars')"
        using set_cases [of Any d vars' subAlg] pos wf True c' by simp
      then have "setSubRegAlign Any d subAlg vars' = Inr vars'"
        using v by (simp add: allocVar_idem allocVar_len)
      with g True show ?thesis by simp
    next
      case False
      with ok sc have d2: "?c dvd subAlg" and v: "vars' = ?U"
        by (simp_all split: if_splits)
      have c': "storedAlign Any d vars' = subAlg" using v by (simp add: storedAlign_update)
      have g: "getSubRegAlign d vars' = Some subAlg"
        using getSubRegAlign_stored [of d vars' Any] lenU v c' by simp
      have "setSubRegAlign Any d subAlg vars' = Inr (allocVar Any d vars')"
        using set_cases [of Any d vars' subAlg] pos c' by simp
      then have "setSubRegAlign Any d subAlg vars' = Inr vars'"
        using v lenU by (simp add: allocVar_idem)
      with g d2 show ?thesis by simp
    qed
  qed
  have keep: "\<exists>vars'. setSubRegAlign Any d subAlg vars = Inr vars' \<and>
                  getSubRegAlign d vars' = Some ?c"
    if wf: "?c = Any \<or> even ?c" and dv: "subAlg dvd ?c"
  proof -
    from wf have wf': "?c = Any \<or> ?c = subAlg \<or> even ?c" by blast
    have "setSubRegAlign Any d subAlg vars = Inr ?A"
      using set_cases [OF pos wf'] dv by simp
    moreover have "getSubRegAlign d ?A = Some ?c"
      using getSubRegAlign_stored [of d ?A Any] lenA by (simp add: storedAlign_alloc)
    ultimately show ?thesis by blast
  qed
  have raise: "\<exists>vars'. setSubRegAlign Any d subAlg vars = Inr vars' \<and>
                  getSubRegAlign d vars' = Some subAlg"
    if wf: "?c = Any \<or> even ?c" and dv: "?c dvd subAlg"
  proof (cases "subAlg dvd ?c")
    case True
    then have "?c = subAlg" using dv by (simp add: dvd_antisym)
    with keep [OF wf True] show ?thesis by simp
  next
    case False
    from wf have wf': "?c = Any \<or> ?c = subAlg \<or> even ?c" by blast
    from False have "setSubRegAlign Any d subAlg vars = Inr ?U"
      using set_cases [OF pos wf'] dv by simp
    moreover have "getSubRegAlign d ?U = Some subAlg"
      using getSubRegAlign_stored [of d ?U Any] lenU by (simp add: storedAlign_update)
    ultimately show ?thesis by blast
  qed
  have clash: "setSubRegAlign Any d subAlg vars = Inl AssertionFailure"
    if "\<not> subAlg dvd ?c" "\<not> ?c dvd subAlg"
  proof (cases "?c = Any \<or> ?c = subAlg \<or> even ?c")
    case True
    then show ?thesis using set_cases [OF pos True] that by simp
  next
    case False
    then have "\<not> (?c = Any \<or> ?c = subAlg \<or> ?c mod 2 = 0)"
      by (simp add: even_iff_mod_2_eq_zero)
    then show ?thesis
      by (simp only: setSubRegAlign_def storedAlign_def Let_def if_True simp_thms)
  qed
  from mono keep raise clash show ?thesis by blast
qed

theorem setSubRegAlign_monotone_witness:
  "0 < storedAlign align_Any 0 vars_empty \<and> storedAlign align_Any 0 vars_empty dvd 4
   \<and> setSubRegAlign align_Any 0 4 vars_empty = Inr vars_four
   \<and> getSubRegAlign 0 vars_four = Some 4
   \<and> setSubRegAlign align_Any 0 4 vars_four = Inr vars_four
   \<and> 0 < storedAlign align_Any 0 vars_four \<and> even (storedAlign align_Any 0 vars_four)
   \<and> 2 dvd storedAlign align_Any 0 vars_four
   \<and> setSubRegAlign align_Any 0 2 vars_four = Inr vars_four
   \<and> \<not> 6 dvd storedAlign align_Any 0 vars_four
   \<and> \<not> storedAlign align_Any 0 vars_four dvd 6
   \<and> setSubRegAlign align_Any 0 6 vars_four = Inl AssertionFailure"
proof -
  have a0: "0 < align_Any" by (simp add: align_Any_def)
  then have p1: "0 < storedAlign align_Any 0 vars_empty" "0 < (4 :: nat)"
    by (simp_all add: storedAlign_examples)
  have p2: "0 < storedAlign align_Any 0 vars_four" "0 < (2 :: nat)" "0 < (6 :: nat)"
    by (simp_all add: storedAlign_examples)
  note t1 = setSubRegAlign_monotone [OF p1]
  note t2 = setSubRegAlign_monotone [OF p2(1) p2(2)]
  note t3 = setSubRegAlign_monotone [OF p2(1) p2(3)]
  have d: "\<not> (6 :: nat) dvd 4" "\<not> (4 :: nat) dvd 6" "align_Any dvd 4"
    by (simp_all add: align_Any_def)
  from t1 t2 t3 d a0 show ?thesis
    by (simp add: storedAlign_examples setSubRegAlign_examples)
qed

section \<open>Operand offsets: source and destination regions agree\<close>

text \<open>
  Claim C10. \<open>G4_SrcRegRegion::computePReg\<close> and \<open>G4_DstRegRegion::computePReg\<close>
  are the same function of the operand and the store. For a base register variable that
  holds a GRF (and a type of non-zero size) they store, in the variable's declare, the
  offset \<open>regNum * bytesPerGRF + subRegNum * thisOpSize\<close> in 32-bit unsigned arithmetic,
  where \<open>subRegNum\<close> is first replaced by \<open>(subRegNum * declElemSize) div thisOpSize\<close>
  when the two sizes differ. When the base is not a register variable with an assigned
  GRF, both leave the store as it is.
\<close>

theorem computePReg_src_dst_agree:
  "G4_SrcRegRegion_computePReg TypeSize bytesPerGRF opnd heap
     = G4_DstRegRegion_computePReg TypeSize bytesPerGRF opnd heap
   \<and> (\<forall>v r. base opnd = RegVar v \<and> phyReg v = Some (Greg r) \<and> TypeSize (type_of opnd) \<noteq> 0 \<longrightarrow>
        G4_SrcRegRegion_computePReg TypeSize bytesPerGRF opnd heap
          = Some (heap(declare_of v := (heap (declare_of v))\<lparr>GRFBaseOffset :=
               r * bytesPerGRF
               + rescaledSubReg (phyRegOff v) (elemSize (heap (declare_of v)))
                   (TypeSize (type_of opnd)) * TypeSize (type_of opnd)\<rparr>)))
   \<and> (\<not> isGRFAssigned (base opnd) \<longrightarrow>
        G4_SrcRegRegion_computePReg TypeSize bytesPerGRF opnd heap = Some heap
        \<and> G4_DstRegRegion_computePReg TypeSize bytesPerGRF opnd heap = Some heap)"
proof (intro conjI allI impI)
  show "G4_SrcRegRegion_computePReg TypeSize bytesPerGRF opnd heap
     = G4_DstRegRegion_computePReg TypeSize bytesPerGRF opnd heap"
    by (simp add: G4_SrcRegRegion_computePReg_def G4_DstRegRegion_computePReg_def Let_def
        split: G4_VarBase.splits option.splits PhyReg.splits)
next
  fix v r
  assume "base opnd = RegVar v \<and> phyReg v = Some (Greg r) \<and> TypeSize (type_of opnd) \<noteq> 0"
  then show "G4_SrcRegRegion_computePReg TypeSize bytesPerGRF opnd heap
          = Some (heap(declare_of v := (heap (declare_of v))\<lparr>GRFBaseOffset :=
               r * bytesPerGRF
               + rescaledSubReg (phyRegOff v) (elemSize (heap (declare_of v)))
                   (TypeSize (type_of opnd)) * TypeSize (type_of opnd)\<rparr>))"
    by (simp add: G4_SrcRegRegion_computePReg_def Let_def rescaledSubReg_def
        setGRFBaseOffset_def)
next
  assume "\<not> isGRFAssigned (base opnd)"
  then show "G4_SrcRegRegion_computePReg TypeSize bytesPerGRF opnd heap = Some heap"
    by (simp add: G4_SrcRegRegion_computePReg_def isGRFAssigned_def Let_def
        split: G4_VarBase.splits option.splits PhyReg.splits)
next
  assume "\<not> isGRFAssigned (base opnd)"
  then show "G4_DstRegRegion_computePReg TypeSize bytesPerGRF opnd heap = Some heap"
    by (simp add: G4_DstRegRegion_computePReg_def isGRFAssigned_def Let_def
        split: G4_VarBase.splits option.splits PhyReg.splits)
qed

theorem computePReg_src_dst_agree_witness:
  "G4_DstRegRegion_computePReg (\<lambda>_. 2) 32 opnd_grf heap_w
     = Some (heap_w(0 := \<lparr>elemSize = 4, GRFBaseOffset = 104\<rparr>))
   \<and> G4_SrcRegRegion_computePReg (\<lambda>_. 2) 32 opnd_grf heap_w
     = Some (heap_w(0 := \<lparr>elemSize = 4, GRFBaseOffset = 104\<rparr>))
   \<and> \<not> isGRFAssigned (base opnd_arf)
   \<and> G4_SrcRegRegion_computePReg (\<lambda>_. 2) 32 opnd_arf heap_w = Some heap_w
   \<and> G4_DstRegRegion_computePReg (\<lambda>_. 2) 32 opnd_arf heap_w = Some heap_w"
proof -
  have g: "base opnd_grf = RegVar \<lparr>phyReg = Some (Greg 3), phyRegOff = 2, declare_of = 0\<rparr>"
    by (simp add: opnd_grf_def)
  have a: "\<not> isGRFAssigned (base opnd_arf)"
    by (simp add: opnd_arf_def isGRFAssigned_def)
  have r: "rescaledSubReg 2 4 2 = 4"
    by (simp add: rescaledSubReg_def)
  note t1 = computePReg_src_dst_agree [of "\<lambda>_. 2" 32 opnd_grf heap_w]
  note t2 = computePReg_src_dst_agree [of "\<lambda>_. 2" 32 opnd_arf heap_w]
  have e1: "G4_DstRegRegion_computePReg (\<lambda>_. 2) 32 opnd_grf heap_w
      = G4_SrcRegRegion_computePReg (\<lambda>_. 2) 32 opnd_grf heap_w"
    using t1 [THEN conjunct1] by simp
  have e2: "G4_SrcRegRegion_computePReg (\<lambda>_. 2) 32 opnd_grf heap_w
     = Some (heap_w(0 := \<lparr>elemSize = 4, GRFBaseOffset = 104\<rparr>))"
    using t1 [THEN conjunct2, THEN conjunct1] g r by (simp add: heap_w_def)
  have e3: "G4_SrcRegRegion_computePReg (\<lambda>_. 2) 32 opnd_arf heap_w = Some heap_w"
    "G4_DstRegRegion_computePReg (\<lambda>_. 2) 32 opnd_arf heap_w = Some heap_w"
    using t2 [THEN conjunct2, THEN conjunct2] a by simp_all
  from e1 e2 e3 a show ?thesis by simp
qed

section \<open>The assignment pass keeps interfering live ranges apart\<close>

lemma interfereBetween_sym: "interfereBetween a b I = interfereBetween b a I"
  by (simp add: interfereBetween_def min.commute max.commute)

lemma rangesOverlap_sym: "rangesOverlap a n b m = rangesOverlap b m a n"
  by (auto simp add: rangesOverlap_def)

lemma find_legal:
  assumes "find (legalColor I al gc v) [0 ..< unat (totalGRFRegCount gc)] = Some r"
  shows "legalColor I al gc v r" and "r < unat (totalGRFRegCount gc)"
  using assms by (auto simp add: find_Some_iff)

lemma unat_color:
  assumes "r < unat (totalGRFRegCount gc)"
  shows "unat (of_nat r :: 32 word) = r"
  using assms le_unat_uoi [of r "totalGRFRegCount gc"] by simp

lemma colorOne_found:
  assumes "find (legalColor I al gc v) [0 ..< unat (totalGRFRegCount gc)] = Some r"
  shows "colorOne I al v gc =
     gc\<lparr>lrs := (lrs gc)[v := (lrs gc ! v)\<lparr>reg :=
            \<lparr>assigned_phyReg = Some (Greg (of_nat r)), subRegOff = 0\<rparr>\<rparr>]\<rparr>"
  using assms by (simp add: colorOne_def setPhyReg_def)

lemma colorOne_none:
  assumes "find (legalColor I al gc v) [0 ..< unat (totalGRFRegCount gc)] = None"
  shows "colorOne I al v gc =
     gc\<lparr>lrs := (lrs gc)[v := setSpilled True (lrs gc ! v)],
        spilledLRs := spilledLRs gc @ [v]\<rparr>"
  using assms by (simp add: colorOne_def)

lemma colorOne_length [simp]: "length (lrs (colorOne I al v gc)) = length (lrs gc)"
  by (cases "find (legalColor I al gc v) [0 ..< unat (totalGRFRegCount gc)]")
     (simp_all add: colorOne_found colorOne_none)

lemma colorOne_other: "u \<noteq> v \<Longrightarrow> lrs (colorOne I al v gc) ! u = lrs gc ! u"
  by (cases "find (legalColor I al gc v) [0 ..< unat (totalGRFRegCount gc)]")
     (simp_all add: colorOne_found colorOne_none)

lemma legal_no_clash:
  assumes "legalColor I al gc v r" and "u < length (lrs gc)" and "u \<noteq> v"
    and "interfereBetween (of_nat v) (of_nat u) I"
  shows "\<not> clashes r (numRegNeeded (lrs gc ! v)) (lrs gc ! u)"
proof -
  from assms(1) have "list_all (\<lambda>u. u = v \<or> \<not> interfereBetween (of_nat v) (of_nat u) I
        \<or> \<not> clashes r (numRegNeeded (lrs gc ! v)) (lrs gc ! u)) [0 ..< length (lrs gc)]"
    by (simp add: legalColor_def Let_def)
  then have "u = v \<or> \<not> interfereBetween (of_nat v) (of_nat u) I
        \<or> \<not> clashes r (numRegNeeded (lrs gc ! v)) (lrs gc ! u)"
    using assms(2) by (simp add: list_all_iff)
  with assms(3,4) show ?thesis by simp
qed

lemma regOverlap_setSpilled [simp]:
  "regOverlap (setSpilled x a) b = regOverlap a b"
  "regOverlap a (setSpilled x b) = regOverlap a b"
  by (simp_all add: regOverlap_def clashes_def getPhyReg_def setSpilled_def
      split: option.splits PhyReg.splits)

lemma noClash_colorOne:
  assumes inv: "noClash I gc"
  shows "noClash I (colorOne I al v gc)"
proof (cases "find (legalColor I al gc v) [0 ..< unat (totalGRFRegCount gc)]")
  case None
  have same: "regOverlap (lrs (colorOne I al v gc) ! a) (lrs (colorOne I al v gc) ! b)
      = regOverlap (lrs gc ! a) (lrs gc ! b)"
    if "a < length (lrs gc)" "b < length (lrs gc)" for a b
    using that
    by (cases "a = v"; cases "b = v")
       (simp_all add: colorOne_none [OF None])
  show ?thesis
    using inv same by (simp add: noClash_def)
next
  case (Some r)
  note legal = find_legal [OF Some]
  let ?gc' = "colorOne I al v gc"
  let ?n = "numRegNeeded (lrs gc ! v)"
  have ur: "unat (of_nat r :: 32 word) = r" using legal(2) by (rule unat_color)
  show ?thesis
    unfolding noClash_def
  proof (intro allI impI)
    fix a b
    assume a: "a < length (lrs ?gc')" and b: "b < length (lrs ?gc')"
      and ab: "a \<noteq> b \<and> interfereBetween (of_nat a) (of_nat b) I"
    from a b have a': "a < length (lrs gc)" and b': "b < length (lrs gc)" by simp_all
    show "\<not> regOverlap (lrs ?gc' ! a) (lrs ?gc' ! b)"
    proof (cases "a = v")
      case True
      with ab have bv: "b \<noteq> v" by simp
      have "\<not> clashes r ?n (lrs gc ! b)"
        using legal_no_clash [OF legal(1) b' bv] ab True by simp
      then show ?thesis
        using True bv a' ur
        by (simp add: colorOne_found [OF Some] regOverlap_def getPhyReg_def)
    next
      case av: False
      show ?thesis
      proof (cases "b = v")
        case True
        have "interfereBetween (of_nat v) (of_nat a) I"
          using ab True interfereBetween_sym by blast
        then have nc: "\<not> clashes r ?n (lrs gc ! a)"
          using legal_no_clash [OF legal(1) a' av] by simp
        show ?thesis
        proof (cases "getPhyReg (lrs gc ! a)")
          case None
          then show ?thesis
            using av by (simp add: colorOne_other regOverlap_def)
        next
          case (Some p)
          show ?thesis
          proof (cases p)
            case (Greg k)
            with Some nc have "\<not> rangesOverlap r ?n (unat k) (numRegNeeded (lrs gc ! a))"
              by (simp add: clashes_def)
            then have "\<not> rangesOverlap (unat k) (numRegNeeded (lrs gc ! a)) r ?n"
              using rangesOverlap_sym by blast
            then show ?thesis
              using av True Some Greg b' ur \<open>find (legalColor I al gc v) [0 ..< unat (totalGRFRegCount gc)] = Some r\<close>
              by (simp add: colorOne_other regOverlap_def clashes_def colorOne_found getPhyReg_def)
          next
            case Areg
            with Some show ?thesis
              using av by (simp add: colorOne_other regOverlap_def)
          qed
        qed
      next
        case False
        with av a' b' ab inv show ?thesis
          by (simp add: colorOne_other noClash_def)
      qed
    qed
  qed
qed

lemma noClash_assignColors: "noClash I gc \<Longrightarrow> noClash I (assignColors I al order gc)"
  by (induction order arbitrary: gc) (simp_all add: noClash_colorOne)

lemma assignColors_length [simp]: "length (lrs (assignColors I al order gc)) = length (lrs gc)"
  by (induction order arbitrary: gc) simp_all

lemma noClash_clean:
  assumes "list_all (\<lambda>lr. getPhyReg lr = None) (lrs gc)"
  shows "noClash I gc"
  using assms by (simp add: noClash_def regOverlap_def list_all_length)

lemma slots_offset:
  "(v, off', sz) \<in> set (createSpillLocations bs g off vs) \<Longrightarrow> off \<le> off'"
proof (induction vs arbitrary: off)
  case Nil
  then show ?case by simp
next
  case (Cons u us)
  then show ?case by (fastforce dest: Cons.IH)
qed

lemma slots_disjoint:
  assumes "(v1, o1, s1) \<in> set (createSpillLocations bs g off vs)"
    and "(v2, o2, s2) \<in> set (createSpillLocations bs g off vs)"
    and "v1 \<noteq> v2"
  shows "\<not> rangesOverlap o1 s1 o2 s2"
  using assms
proof (induction vs arbitrary: off)
  case Nil
  then show ?case by simp
next
  case (Cons u us)
  let ?sz = "ROUND (bs u) g"
  let ?rest = "createSpillLocations bs g (off + ?sz) us"
  from Cons.prems(1) have c1: "(v1, o1, s1) = (u, off, ?sz) \<or> (v1, o1, s1) \<in> set ?rest" by simp
  from Cons.prems(2) have c2: "(v2, o2, s2) = (u, off, ?sz) \<or> (v2, o2, s2) \<in> set ?rest" by simp
  from c1 c2 show ?case
  proof (elim disjE)
    assume "(v1, o1, s1) = (u, off, ?sz)" "(v2, o2, s2) = (u, off, ?sz)"
    with Cons.prems(3) show ?thesis by simp
  next
    assume h: "(v1, o1, s1) = (u, off, ?sz)" and t: "(v2, o2, s2) \<in> set ?rest"
    from t have "off + ?sz \<le> o2" by (rule slots_offset)
    with h show ?thesis by (simp add: rangesOverlap_def)
  next
    assume t: "(v1, o1, s1) \<in> set ?rest" and h: "(v2, o2, s2) = (u, off, ?sz)"
    from t have "off + ?sz \<le> o1" by (rule slots_offset)
    with h show ?thesis by (simp add: rangesOverlap_def)
  next
    assume "(v1, o1, s1) \<in> set ?rest" "(v2, o2, s2) \<in> set ?rest"
    then show ?thesis using Cons.IH Cons.prems(3) by blast
  qed
qed

lemma I3_edges:
  "interfereBetween 0 1 I3" "interfereBetween 0 2 I3" "interfereBetween 1 2 I3"
  "interfereBetween 1 0 I3" "interfereBetween 2 0 I3" "interfereBetween 2 1 I3"
  by (simp_all add: interfereBetween_def edgeStored_def useDenseMatrix_nat I3_def
        BITS_DWORD_def Let_def)

lemma assignColors_gc3_a:
  "assignColors I3 unaligned order3 gc3 = gc3_colored"
  by code_simp

text \<open>
  Claim C1. From a state in which no live range holds a register, after the assignment
  pass and the creation of spill locations, any two distinct live ranges with a recorded
  interference edge occupy storage that does not overlap: disjoint register ranges when
  both are colored, disjoint spill slots when both are spilled, and a register range and
  a spill slot otherwise. This holds for every color order, alignment rule, register
  budget and interference graph.
\<close>

theorem interfering_storage_disjoint:
  assumes clean: "list_all (\<lambda>lr. getPhyReg lr = None) (lrs gc)"
  shows "\<forall>v1 < length (lrs gc). \<forall>v2 < length (lrs gc).
           v1 \<noteq> v2 \<and> interfereBetween (of_nat v1) (of_nat v2) I \<longrightarrow>
           \<not> storageOverlap
               (storageOf (assignColors I al order gc)
                  (createSpillLocations byteSize g 0
                     (getSpilledLiveRanges (assignColors I al order gc))) v1)
               (storageOf (assignColors I al order gc)
                  (createSpillLocations byteSize g 0
                     (getSpilledLiveRanges (assignColors I al order gc))) v2)"
proof (intro allI impI)
  fix v1 v2
  let ?gc = "assignColors I al order gc"
  let ?slots = "createSpillLocations byteSize g 0 (getSpilledLiveRanges ?gc)"
  assume v1: "v1 < length (lrs gc)" and v2: "v2 < length (lrs gc)"
    and h: "v1 \<noteq> v2 \<and> interfereBetween (of_nat v1) (of_nat v2) I"
  have inv: "noClash I ?gc"
    using clean by (simp add: noClash_clean noClash_assignColors)
  then have nr: "\<not> regOverlap (lrs ?gc ! v1) (lrs ?gc ! v2)"
    using v1 v2 h by (simp add: noClash_def)
  show "\<not> storageOverlap (storageOf ?gc ?slots v1) (storageOf ?gc ?slots v2)"
  proof (cases "storageOf ?gc ?slots v1")
    case None
    then show ?thesis by simp
  next
    case s1: (Some st1)
    show ?thesis
    proof (cases "storageOf ?gc ?slots v2")
      case None
      with s1 show ?thesis by (cases st1) simp_all
    next
      case s2: (Some st2)
      show ?thesis
      proof (cases st1)
        case r1: (InRegisters a n)
        show ?thesis
        proof (cases st2)
          case r2: (InRegisters b m)
          from s1 r1 obtain k1 where k1: "getPhyReg (lrs ?gc ! v1) = Some (Greg k1)"
            "unat k1 = a" "numRegNeeded (lrs ?gc ! v1) = n"
            by (auto simp add: storageOf_def split: option.splits PhyReg.splits)
          from s2 r2 obtain k2 where k2: "getPhyReg (lrs ?gc ! v2) = Some (Greg k2)"
            "unat k2 = b" "numRegNeeded (lrs ?gc ! v2) = m"
            by (auto simp add: storageOf_def split: option.splits PhyReg.splits)
          from nr k1 k2 have "\<not> rangesOverlap a n b m"
            by (simp add: regOverlap_def clashes_def)
          with s1 s2 r1 r2 show ?thesis by simp
        next
          case (InMemory b m)
          with s1 s2 r1 show ?thesis by simp
        qed
      next
        case m1: (InMemory a n)
        show ?thesis
        proof (cases st2)
          case (InRegisters b m)
          with s1 s2 m1 show ?thesis by simp
        next
          case m2: (InMemory b m)
          from s1 m1 have "map_of ?slots v1 = Some (a, n)"
            by (auto simp add: storageOf_def split: option.splits PhyReg.splits)
          then have e1: "(v1, a, n) \<in> set ?slots" by (rule map_of_SomeD)
          from s2 m2 have "map_of ?slots v2 = Some (b, m)"
            by (auto simp add: storageOf_def split: option.splits PhyReg.splits)
          then have e2: "(v2, b, m) \<in> set ?slots" by (rule map_of_SomeD)
          from e1 e2 h have "\<not> rangesOverlap a n b m"
            using slots_disjoint by blast
          with s1 s2 m1 m2 show ?thesis by simp
        qed
      qed
    qed
  qed
qed

theorem interfering_storage_disjoint_witness:
  "list_all (\<lambda>lr. getPhyReg lr = None) (lrs gc3)
   \<and> interfereBetween (of_nat 0) (of_nat 1) I3
   \<and> assignColors I3 unaligned order3 gc3 = gc3_colored
   \<and> \<not> storageOverlap
         (storageOf gc3_colored
            (createSpillLocations (\<lambda>_. 20) 32 0 (getSpilledLiveRanges gc3_colored)) 0)
         (storageOf gc3_colored
            (createSpillLocations (\<lambda>_. 20) 32 0 (getSpilledLiveRanges gc3_colored)) 1)"
proof -
  have clean: "list_all (\<lambda>lr. getPhyReg lr = None) (lrs gc3)"
    by (simp add: gc3_def lr0_def getPhyReg_def)
  have e: "interfereBetween (of_nat 0) (of_nat 1) I3"
    using I3_edges(1) by simp
  then have ne: "(0 :: nat) \<noteq> 1 \<and> interfereBetween (of_nat 0) (of_nat 1) I3"
    by simp
  have len: "(0 :: nat) < length (lrs gc3)" "(1 :: nat) < length (lrs gc3)"
    by (simp_all add: gc3_def)
  note t = interfering_storage_disjoint [OF clean, of I3 unaligned order3 "\<lambda>_. 20" 32,
      rule_format, OF len ne, unfolded assignColors_gc3_a]
  from clean e t show ?thesis
    by (simp only: assignColors_gc3_a simp_thms)
qed

section \<open>The spilled list after a pass\<close>

lemma assignColors_other:
  "u \<notin> set order \<Longrightarrow> lrs (assignColors I al order gc) ! u = lrs gc ! u"
  by (induction order arbitrary: gc) (simp_all add: colorOne_other)

lemma colored_colorOne_other: "u \<noteq> v \<Longrightarrow> colored (colorOne I al v gc) u = colored gc u"
  by (simp add: colored_def colorOne_other)

lemma colorOne_step:
  assumes "v < length (lrs gc)" and "\<not> colored gc v"
  shows "(colored (colorOne I al v gc) v \<and> spilledLRs (colorOne I al v gc) = spilledLRs gc)
       \<or> (\<not> colored (colorOne I al v gc) v \<and> spilled (lrs (colorOne I al v gc) ! v)
           \<and> spilledLRs (colorOne I al v gc) = spilledLRs gc @ [v])"
proof (cases "find (legalColor I al gc v) [0 ..< unat (totalGRFRegCount gc)]")
  case None
  with assms show ?thesis
    by (simp add: colorOne_none colored_def getPhyReg_def setSpilled_def)
next
  case (Some r)
  with assms show ?thesis
    by (simp add: colorOne_found colored_def getPhyReg_def)
qed

lemma spilled_list:
  assumes "distinct order"
    and "\<forall>v \<in> set order. v < length (lrs gc) \<and> \<not> colored gc v"
  shows "spilledLRs (assignColors I al order gc)
       = spilledLRs gc @ filter (\<lambda>v. \<not> colored (assignColors I al order gc) v) order
     \<and> (\<forall>v \<in> set order. \<not> colored (assignColors I al order gc) v \<longrightarrow>
           spilled (lrs (assignColors I al order gc) ! v))"
  using assms
proof (induction order arbitrary: gc)
  case Nil
  then show ?case by simp
next
  case (Cons v vs)
  let ?g1 = "colorOne I al v gc"
  let ?fin = "assignColors I al vs ?g1"
  from Cons.prems have v: "v < length (lrs gc)" "\<not> colored gc v" "v \<notin> set vs" "distinct vs"
    by simp_all
  have pre: "\<forall>u \<in> set vs. u < length (lrs ?g1) \<and> \<not> colored ?g1 u"
  proof
    fix u assume u: "u \<in> set vs"
    with v(3) have "u \<noteq> v" by auto
    then have "colored ?g1 u = colored gc u" by (rule colored_colorOne_other)
    with u Cons.prems(2) show "u < length (lrs ?g1) \<and> \<not> colored ?g1 u" by simp
  qed
  note ih = Cons.IH [OF v(4) pre]
  have keep: "lrs ?fin ! v = lrs ?g1 ! v"
    using v(3) by (rule assignColors_other)
  then have ck: "colored ?fin v = colored ?g1 v" by (simp add: colored_def)
  from colorOne_step [OF v(1,2), of I al] show ?case
  proof (elim disjE conjE)
    assume "colored ?g1 v" "spilledLRs ?g1 = spilledLRs gc"
    with ih ck show ?thesis by simp
  next
    assume "\<not> colored ?g1 v" "spilled (lrs ?g1 ! v)" "spilledLRs ?g1 = spilledLRs gc @ [v]"
    with ih ck keep show ?thesis by simp
  qed
qed

section \<open>The order of the live intervals\<close>









section \<open>Edges inserted by the augmentation sweep\<close>








section \<open>Exhausted live ranges are the spilled list\<close>

lemma assignColors_append:
  "assignColors I al (xs @ ys) gc = assignColors I al ys (assignColors I al xs gc)"
  by (induction xs arbitrary: gc) simp_all

lemma colorOne_total [simp]:
  "totalGRFRegCount (colorOne I al v gc) = totalGRFRegCount gc"
  by (cases "find (legalColor I al gc v) [0 ..< unat (totalGRFRegCount gc)]")
     (simp_all add: colorOne_found colorOne_none)

lemma assignColors_total [simp]:
  "totalGRFRegCount (assignColors I al order gc) = totalGRFRegCount gc"
  by (induction order arbitrary: gc) simp_all

lemma colorOne_exhausted:
  assumes "v < length (lrs gc)" and "\<not> colored gc v"
  shows "colored (colorOne I al v gc) v
       = (\<exists>r < unat (totalGRFRegCount gc). legalColor I al gc v r)"
proof (cases "find (legalColor I al gc v) [0 ..< unat (totalGRFRegCount gc)]")
  case None
  then have "\<not> (\<exists>r < unat (totalGRFRegCount gc). legalColor I al gc v r)"
    by (auto simp add: find_None_iff)
  moreover have "\<not> colored (colorOne I al v gc) v"
    using assms None by (simp add: colorOne_none colored_def getPhyReg_def setSpilled_def)
  ultimately show ?thesis by simp
next
  case (Some r)
  then have "legalColor I al gc v r" "r < unat (totalGRFRegCount gc)"
    by (rule find_legal)+
  moreover have "colored (colorOne I al v gc) v"
    using assms Some by (simp add: colorOne_found colored_def getPhyReg_def)
  ultimately show ?thesis by blast
qed

lemma colored_at_turn:
  assumes d: "distinct (pre @ v # post)"
    and r: "list_all (\<lambda>v. v < length (lrs gc)) (pre @ v # post)"
    and c: "list_all (\<lambda>lr. getPhyReg lr = None) (lrs gc)"
  shows "colored (assignColors I al (pre @ v # post) gc) v
       = (\<exists>r < unat (totalGRFRegCount gc).
            legalColor I al (assignColors I al pre gc) v r)"
proof -
  let ?g = "assignColors I al pre gc"
  from d have np: "v \<notin> set pre" and nq: "v \<notin> set post" by simp_all
  from r have vl: "v < length (lrs gc)" by simp
  have "lrs ?g ! v = lrs gc ! v" using np by (rule assignColors_other)
  moreover have "getPhyReg (lrs gc ! v) = None"
    using c vl by (simp add: list_all_length)
  ultimately have unc: "\<not> colored ?g v" by (simp add: colored_def)
  have vl': "v < length (lrs ?g)" using vl by simp
  have fin: "assignColors I al (pre @ v # post) gc
      = assignColors I al post (colorOne I al v ?g)"
    by (simp add: assignColors_append)
  have "lrs (assignColors I al post (colorOne I al v ?g)) ! v = lrs (colorOne I al v ?g) ! v"
    using nq by (rule assignColors_other)
  then have "colored (assignColors I al (pre @ v # post) gc) v = colored (colorOne I al v ?g) v"
    by (simp add: fin colored_def)
  also have "\<dots> = (\<exists>r < unat (totalGRFRegCount ?g). legalColor I al ?g v r)"
    using vl' unc by (rule colorOne_exhausted)
  finally show ?thesis by simp
qed

lemma gc3_exhausted:
  "order3 = [0, 1] @ 2 # []"
  "assignColors I3 unaligned [0, 1] gc3 =
     gc3\<lparr>lrs := [lr0\<lparr>reg := \<lparr>assigned_phyReg = Some (Greg 0), subRegOff = 0\<rparr>\<rparr>,
                   lr0\<lparr>reg := \<lparr>assigned_phyReg = Some (Greg 1), subRegOff = 0\<rparr>\<rparr>,
                   lr0]\<rparr>"
  "set order3 = {0 ..< length (lrs gc3)}"
  by (simp add: order3_def, code_simp, code_simp)

text \<open>
  Claim C7. \<open>requireSpillCode\<close> is true exactly when the spilled list is not empty.
  After a pass over a duplicate-free color order, started with no register assigned and
  an empty spilled list: the pass needs no spill code exactly when every live range of the
  order is colored (every live range, when the order holds them all). A live range is on
  the spilled list exactly when, at its turn in the pass, no register of the budget was a
  legal color for it, and it is colored exactly when one was. The spilled list is the
  order restricted to the live ranges left uncolored: each of them is on it once, keeps no
  register and is marked spilled.
\<close>

theorem spill_list_collects_exhausted:
  assumes "distinct order"
    and "list_all (\<lambda>v. v < length (lrs gc)) order"
    and "spilledLRs gc = []"
    and "list_all (\<lambda>lr. getPhyReg lr = None) (lrs gc)"
  shows "requireSpillCode (assignColors I al order gc)
           = (getSpilledLiveRanges (assignColors I al order gc) \<noteq> [])
     \<and> ((\<not> requireSpillCode (assignColors I al order gc))
           = list_all (colored (assignColors I al order gc)) order)
     \<and> (set order = {0 ..< length (lrs gc)} \<longrightarrow>
          (\<not> requireSpillCode (assignColors I al order gc))
            = list_all (colored (assignColors I al order gc)) [0 ..< length (lrs gc)])
     \<and> getSpilledLiveRanges (assignColors I al order gc)
           = filter (\<lambda>v. \<not> colored (assignColors I al order gc) v) order
     \<and> distinct (getSpilledLiveRanges (assignColors I al order gc))
     \<and> list_all (\<lambda>v. spilled (lrs (assignColors I al order gc) ! v))
           (getSpilledLiveRanges (assignColors I al order gc))
     \<and> (\<forall>pre v post. order = pre @ v # post \<longrightarrow>
           (v \<in> set (getSpilledLiveRanges (assignColors I al order gc)))
             = (\<forall>r < unat (totalGRFRegCount gc).
                  \<not> legalColor I al (assignColors I al pre gc) v r)
           \<and> colored (assignColors I al order gc) v
             = (\<exists>r < unat (totalGRFRegCount gc).
                  legalColor I al (assignColors I al pre gc) v r))"
proof -
  let ?fin = "assignColors I al order gc"
  have unc: "\<forall>v \<in> set order. v < length (lrs gc) \<and> \<not> colored gc v"
    using assms(2,4) by (auto simp add: list_all_iff colored_def)
  note sl = spilled_list [OF assms(1) unc, of I al]
  from sl assms(3) have lst: "spilledLRs ?fin = filter (\<lambda>v. \<not> colored ?fin v) order"
    by simp
  from sl have flag: "\<forall>v \<in> set order. \<not> colored ?fin v \<longrightarrow> spilled (lrs ?fin ! v)"
    by simp
  have a: "requireSpillCode ?fin = (getSpilledLiveRanges ?fin \<noteq> [])"
    by (simp add: requireSpillCode_def getSpilledLiveRanges_def)
  have b: "(\<not> requireSpillCode ?fin) = list_all (colored ?fin) order"
    by (simp add: requireSpillCode_def lst filter_empty_conv list_all_iff)
  have b': "set order = {0 ..< length (lrs gc)} \<longrightarrow>
      (\<not> requireSpillCode ?fin) = list_all (colored ?fin) [0 ..< length (lrs gc)]"
    using b by (simp add: list_all_iff)
  have c: "getSpilledLiveRanges ?fin = filter (\<lambda>v. \<not> colored ?fin v) order"
    by (simp add: getSpilledLiveRanges_def lst)
  have c': "distinct (getSpilledLiveRanges ?fin)"
    using assms(1) by (simp add: c)
  have d: "list_all (\<lambda>v. spilled (lrs ?fin ! v)) (getSpilledLiveRanges ?fin)"
    using flag by (simp add: c list_all_iff)
  have e: "\<forall>pre v post. order = pre @ v # post \<longrightarrow>
           (v \<in> set (getSpilledLiveRanges ?fin))
             = (\<forall>r < unat (totalGRFRegCount gc).
                  \<not> legalColor I al (assignColors I al pre gc) v r)
           \<and> colored ?fin v
             = (\<exists>r < unat (totalGRFRegCount gc).
                  legalColor I al (assignColors I al pre gc) v r)"
  proof (intro allI impI)
    fix pre v post
    assume o: "order = pre @ v # post"
    have ct: "colored ?fin v
        = (\<exists>r < unat (totalGRFRegCount gc). legalColor I al (assignColors I al pre gc) v r)"
      using colored_at_turn [of pre v post gc I al] assms(1,2,4) o by simp
    from o have vin: "v \<in> set order" by simp
    have "(v \<in> set (getSpilledLiveRanges ?fin)) = (\<not> colored ?fin v)"
      using vin by (simp add: c)
    with ct show "(v \<in> set (getSpilledLiveRanges ?fin))
             = (\<forall>r < unat (totalGRFRegCount gc).
                  \<not> legalColor I al (assignColors I al pre gc) v r)
           \<and> colored ?fin v
             = (\<exists>r < unat (totalGRFRegCount gc).
                  legalColor I al (assignColors I al pre gc) v r)"
      by simp
  qed
  from a b b' c c' d e show ?thesis by blast
qed

theorem spill_list_collects_exhausted_witness:
  "distinct order3
   \<and> list_all (\<lambda>v. v < length (lrs gc3)) order3
   \<and> spilledLRs gc3 = []
   \<and> list_all (\<lambda>lr. getPhyReg lr = None) (lrs gc3)
   \<and> set order3 = {0 ..< length (lrs gc3)}
   \<and> order3 = [0, 1] @ 2 # []
   \<and> assignColors I3 unaligned order3 gc3 = gc3_colored
   \<and> requireSpillCode gc3_colored
   \<and> \<not> list_all (colored gc3_colored) [0 ..< length (lrs gc3)]
   \<and> getSpilledLiveRanges gc3_colored = [2]
   \<and> 2 \<in> set (getSpilledLiveRanges gc3_colored)
   \<and> \<not> colored gc3_colored 2
   \<and> list_all (\<lambda>r. \<not> legalColor I3 unaligned (assignColors I3 unaligned [0, 1] gc3) 2 r)
         [0 ..< unat (totalGRFRegCount gc3)]"
proof -
  have h: "distinct order3" "list_all (\<lambda>v. v < length (lrs gc3)) order3"
    "spilledLRs gc3 = []" "list_all (\<lambda>lr. getPhyReg lr = None) (lrs gc3)"
    by (simp_all add: gc3_def lr0_def getPhyReg_def order3_def)
  note t = spill_list_collects_exhausted [OF h, of I3 unaligned, unfolded assignColors_gc3_a]
  have c: "getSpilledLiveRanges gc3_colored = [2]"
    by (simp add: gc3_colored_def getSpilledLiveRanges_def)
  then have m: "2 \<in> set (getSpilledLiveRanges gc3_colored)" by simp
  from t have rq: "requireSpillCode gc3_colored = (getSpilledLiveRanges gc3_colored \<noteq> [])"
    by blast
  with c have r1: "requireSpillCode gc3_colored" by simp
  from t gc3_exhausted(3) r1
  have r2: "\<not> list_all (colored gc3_colored) [0 ..< length (lrs gc3)]"
    by blast
  from t gc3_exhausted(1)
  have ex: "(2 \<in> set (getSpilledLiveRanges gc3_colored))
      = (\<forall>r < unat (totalGRFRegCount gc3).
           \<not> legalColor I3 unaligned (assignColors I3 unaligned [0, 1] gc3) 2 r)"
    and co: "colored gc3_colored 2
      = (\<exists>r < unat (totalGRFRegCount gc3).
           legalColor I3 unaligned (assignColors I3 unaligned [0, 1] gc3) 2 r)"
    by blast+
  from ex m have e1: "list_all (\<lambda>r. \<not> legalColor I3 unaligned
       (assignColors I3 unaligned [0, 1] gc3) 2 r) [0 ..< unat (totalGRFRegCount gc3)]"
    by (simp add: list_all_iff)
  from co ex m have e2: "\<not> colored gc3_colored 2" by blast
  from h gc3_exhausted(1,3) assignColors_gc3_a r1 r2 c m e1 e2 show ?thesis
    by blast
qed

section \<open>The order of the live intervals and what depends on it\<close>







section \<open>Edges recorded by the whole sweep\<close>










end
